theory Spec2Isabelle
  imports Complex_Main "HOL-Library.Multiset" "HOL-Library.Char_ord" "HOL-Library.List_Lexorder"
begin

section \<open>Strings as Python sees them\<close>

text \<open>
  Python strings are modelled as \<open>string\<close>; one \<open>char\<close> stands for one code point below
  256. \<open>str.strip()\<close>, \<open>str.split()\<close> and the regular expression class \<open>\s\<close> all use the
  same whitespace test on \<open>str\<close> values, which on this range is true for the code points
  9 to 13, 28 to 32, 133 and 160.
\<close>

definition is_space :: "char \<Rightarrow> bool" where
  "is_space c =
     (let n = (of_char c :: nat)
      in (9 \<le> n \<and> n \<le> 13) \<or> (28 \<le> n \<and> n \<le> 32) \<or> n = 133 \<or> n = 160)"

text \<open>\<open>text.strip()\<close>: leading and trailing whitespace removed.\<close>

definition strip :: "string \<Rightarrow> string" where
  "strip s = rev (dropWhile is_space (rev (dropWhile is_space s)))"

text \<open>
  \<open>s.split()\<close> with no argument: the maximal runs of non-whitespace characters, in order;
  \<open>cur\<close> is the word being read.
\<close>

fun split_acc :: "string \<Rightarrow> string \<Rightarrow> string list" where
  "split_acc cur [] = (if cur = [] then [] else [cur])"
| "split_acc cur (c # cs) =
     (if is_space c then (if cur = [] then split_acc [] cs else cur # split_acc [] cs)
      else split_acc (cur @ [c]) cs)"

definition split :: "string \<Rightarrow> string list" where
  "split s = split_acc [] s"

text \<open>\<open>" ".join(words)\<close> and \<open>sep.join(parts)\<close>.\<close>

fun join :: "string \<Rightarrow> string list \<Rightarrow> string" where
  "join sep [] = []"
| "join sep [w] = w"
| "join sep (w # ws) = w @ sep @ join sep ws"

section \<open>Chunker\<close>

text \<open>
  \<open>re.split(r"(?<=[\.!?])\s+", s)\<close>: the string is cut at every maximal whitespace run whose
  preceding character is one of \<open>.\<close>, \<open>!\<close>, \<open>?\<close>; the run itself is dropped. \<open>cur\<close> is the
  piece being read. A whitespace character can only start a match when the piece read so far
  is non-empty: a piece starts at the beginning of the string, where the look-behind has
  nothing to look at, or right after a match, which has consumed the whole run.
\<close>

definition is_sentence_end :: "char \<Rightarrow> bool" where
  "is_sentence_end c = (c = CHR ''.'' \<or> c = CHR ''!'' \<or> c = CHR ''?'')"

function re_split_acc :: "string \<Rightarrow> string \<Rightarrow> string list" where
  "re_split_acc cur [] = [cur]"
| "re_split_acc cur (c # cs) =
     (if is_space c \<and> cur \<noteq> [] \<and> is_sentence_end (last cur)
      then cur # re_split_acc [] (dropWhile is_space cs)
      else re_split_acc (cur @ [c]) cs)"
  by pat_completeness auto
termination
  by (relation "measure (\<lambda>(cur, s). length s)")
     (auto simp: le_imp_less_Suc length_dropWhile_le)

definition split_into_sentences :: "string \<Rightarrow> string list" where
  "split_into_sentences text = re_split_acc [] (strip text)"

definition MAX_WORDS_PER_CHUNK :: int where
  "MAX_WORDS_PER_CHUNK = 500"

text \<open>
  The loop of \<open>chunk_text\<close> over the sentences, on the state \<open>(chunks, current, wc)\<close>.
\<close>

fun chunk_loop ::
  "int \<Rightarrow> string list \<Rightarrow> string list \<times> string list \<times> int \<Rightarrow> string list \<times> string list \<times> int"
where
  "chunk_loop max_words [] st = st"
| "chunk_loop max_words (s # ss) (chunks, current, wc) =
     (let words = split s
      in if words = [] then chunk_loop max_words ss (chunks, current, wc)
         else if wc + int (length words) > max_words
         then chunk_loop max_words ss
                ((if current \<noteq> [] then chunks @ [join '' '' current] else chunks),
                 words, int (length words))
         else chunk_loop max_words ss (chunks, current @ words, wc + int (length words)))"

definition chunk_text :: "string \<Rightarrow> int \<Rightarrow> string list" where
  "chunk_text text max_words =
     (case chunk_loop max_words (split_into_sentences text) ([], [], 0) of
        (chunks, current, wc) \<Rightarrow>
          if current \<noteq> [] then chunks @ [join '' '' current] else chunks)"

section \<open>Configuration\<close>

definition PDF_FOLDER :: string where
  "PDF_FOLDER = ''pdfs''"

definition TOP_K_CHUNKS_FOR_QA :: nat where
  "TOP_K_CHUNKS_FOR_QA = 3"

definition MODEL_PRIORITY :: "string list" where
  "MODEL_PRIORITY = [''llama-3.3-70b-versatile'', ''llama-3.1-8b-instant'']"

section \<open>The world outside the program\<close>

text \<open>
  Everything the functions read from outside is a field of one record: the folder listing,
  the PDF files, the numeric part of scikit-learn's vectoriser, the order in which numpy's
  sort leaves equal scores, the similarity service and the generation service.
\<close>

text \<open>
  A PDF file: \<open>pymupdf.open\<close> raises (\<open>Unreadable\<close>) or gives pages; \<open>get_text()\<close> of a page
  gives its text or raises (\<open>None\<close>).
\<close>

datatype pdf_file = Unreadable | Pages "string option list"

text \<open>
  The value a JSON object may hold under the key \<open>similarity\<close>, as Python reads it: \<open>None\<close>,
  a \<open>bool\<close>, a number, a \<open>str\<close> or a \<open>dict\<close> (whose content plays no part below). An
  array is not modelled, and neither are the non-standard literals \<open>NaN\<close> and \<open>Infinity\<close>.
\<close>

datatype json_value = JNull | JBool bool | JNumber real | JString string | JObject

text \<open>
  One \<open>requests.post\<close> to the similarity service and the reading of its answer inside the
  \<open>try\<close> block: an exception anywhere in the block, a response that is not \<open>r.ok\<close>, or a JSON
  object without the key \<open>similarity\<close> or with some value under it.
\<close>

datatype http_outcome = Request_raises | Status_not_ok | Json_body "json_value option"

text \<open>
  One \<open>client.chat.completions.create\<close> call together with the reading of the response
  inside the \<open>try\<close> block: an exception with its message \<open>str(e)\<close>, or a response with the
  message contents of its choices (no \<open>choices\<close> attribute counts as no choice).
\<close>

datatype api_outcome = Raises string | Response "string list"

record message =
  role :: string
  content :: string

type_synonym client = "string \<Rightarrow> message list \<Rightarrow> api_outcome"

record world =
  folder :: "string list option"
  files :: "string \<Rightarrow> pdf_file option"
  tfidf_cosine :: "string \<Rightarrow> string list \<Rightarrow> nat \<Rightarrow> real"
  argsort_ties :: "real list \<Rightarrow> nat \<Rightarrow> nat"
  api_ninjas_key :: string
  api_ninjas_post :: "string \<Rightarrow> string \<Rightarrow> http_outcome"
  groq_cached :: "client option"
  groq_api_key :: string
  groq_construct :: "string \<Rightarrow> client option"

text \<open>
  The exceptions that leave a function: \<open>ValueError\<close> with its message, and \<open>TypeError\<close>,
  whose message is not modelled.
\<close>

datatype error = ValueError string | TypeError

section \<open>PDF utilities\<close>

text \<open>\<open>str.lower()\<close> on one character of the range.\<close>

definition lower_char :: "char \<Rightarrow> char" where
  "lower_char c =
     (let n = (of_char c :: nat)
      in if (65 \<le> n \<and> n \<le> 90) \<or> (192 \<le> n \<and> n \<le> 222 \<and> n \<noteq> 215)
         then char_of (n + 32) else c)"

definition endswith :: "string \<Rightarrow> string \<Rightarrow> bool" where
  "endswith s suf = (length suf \<le> length s \<and> drop (length s - length suf) s = suf)"

text \<open>
  \<open>discover_pdfs\<close>: \<open>folder w\<close> is \<open>None\<close> when the folder does not exist, and the result of
  \<open>os.listdir\<close> otherwise. The memoisation of \<open>st.cache_data\<close> is not modelled: one call
  computes what is written.
\<close>

definition discover_pdfs :: "world \<Rightarrow> string list" where
  "discover_pdfs w =
     (case folder w of
        None \<Rightarrow> []
      | Some listing \<Rightarrow> sort (filter (\<lambda>f. endswith (map lower_char f) ''.pdf'') listing))"

text \<open>\<open>os.path.join(PDF_FOLDER, pdf)\<close> on POSIX.\<close>

definition path_join :: "string \<Rightarrow> string \<Rightarrow> string" where
  "path_join a b =
     (if b \<noteq> [] \<and> hd b = CHR ''/'' then b
      else if a = [] \<or> last a = CHR ''/'' then a @ b
      else a @ ''/'' @ b)"

definition extract_text_from_pdf_path :: "world \<Rightarrow> string \<Rightarrow> string" where
  "extract_text_from_pdf_path w path =
     (case files w path of
        None \<Rightarrow> []
      | Some Unreadable \<Rightarrow> []
      | Some (Pages ps) \<Rightarrow> join [CHR 0x0A] (map the (filter (\<lambda>p. p \<noteq> None) ps)))"

section \<open>Generation client\<close>

text \<open>
  \<open>_get_client\<close>: the cached client if there is one, no client without a key or with the
  placeholder key, and otherwise what constructing the client gives (\<open>None\<close> when the import
  or the constructor raises). The write to the global cache only matters to later calls,
  which then read the same client back.
\<close>

definition get_client :: "world \<Rightarrow> client option" where
  "get_client w =
     (case groq_cached w of
        Some c \<Rightarrow> Some c
      | None \<Rightarrow>
          (let key = groq_api_key w
           in if key = [] \<or> key = ''your_groq_api_key_here'' then None
              else groq_construct w key))"

text \<open>The fallback branch of \<open>_chat_complete\<close>: the loop over \<open>reversed(messages)\<close>.\<close>

fun fallback_scan :: "message list \<Rightarrow> string" where
  "fallback_scan [] = ''[No Groq API key configured]''"
| "fallback_scan (m # ms) =
     (if role m = ''user''
      then (let txt = content m
            in take 800 txt @ (if length txt > 800 then ''...'' else []))
      else fallback_scan ms)"

text \<open>
  The loop over the candidate models; \<open>last_error\<close> is \<open>None\<close> or the message of the last
  exception. A response without choices moves on to the next model and records nothing.
\<close>

fun try_models :: "client \<Rightarrow> message list \<Rightarrow> string option \<Rightarrow> string list \<Rightarrow> string" where
  "try_models cl messages last_error [] =
     ''[LLM error: '' @ (case last_error of None \<Rightarrow> ''None'' | Some e \<Rightarrow> e) @ '']''"
| "try_models cl messages last_error (model # models) =
     (case cl model messages of
        Response (c # cs) \<Rightarrow> c
      | Response [] \<Rightarrow> try_models cl messages last_error models
      | Raises e \<Rightarrow> try_models cl messages (Some e) models)"

text \<open>
  \<open>_chat_complete\<close>, given the result of \<open>_get_client()\<close> and the list of candidate models;
  the value is the \<open>"text"\<close> entry of the returned dictionary.
\<close>

definition chat_complete :: "string list \<Rightarrow> client option \<Rightarrow> message list \<Rightarrow> string" where
  "chat_complete model_priority cl messages =
     (case cl of
        None \<Rightarrow> fallback_scan (rev messages)
      | Some c \<Rightarrow> try_models c messages None model_priority)"

section \<open>Relevance ranker\<close>

text \<open>
  scikit-learn's \<open>TfidfVectorizer()\<close> with its defaults: the text is lower-cased and its
  tokens are the maximal runs of two or more word characters (\<open>(?u)\b\w\w+\b\<close>). \<open>fit\<close>
  raises \<open>ValueError\<close> when the documents have no token at all. The numbers it computes are
  not modelled: \<open>tfidf_cosine w query chunks i\<close> is the cosine similarity of the query and
  chunk \<open>i\<close>.
\<close>

definition is_word_char :: "char \<Rightarrow> bool" where
  "is_word_char c =
     (let n = (of_char c :: nat)
      in (48 \<le> n \<and> n \<le> 57) \<or> (65 \<le> n \<and> n \<le> 90) \<or> n = 95 \<or> (97 \<le> n \<and> n \<le> 122)
         \<or> n = 170 \<or> n = 178 \<or> n = 179 \<or> n = 181 \<or> n = 185 \<or> n = 186
         \<or> (188 \<le> n \<and> n \<le> 190) \<or> (192 \<le> n \<and> n \<le> 214) \<or> (216 \<le> n \<and> n \<le> 246)
         \<or> (248 \<le> n \<and> n \<le> 255))"

fun tokenize_acc :: "string \<Rightarrow> string \<Rightarrow> string list" where
  "tokenize_acc cur [] = (if 2 \<le> length cur then [cur] else [])"
| "tokenize_acc cur (c # cs) =
     (if is_word_char c then tokenize_acc (cur @ [c]) cs
      else if 2 \<le> length cur then cur # tokenize_acc [] cs
      else tokenize_acc [] cs)"

definition tokenize :: "string \<Rightarrow> string list" where
  "tokenize s = tokenize_acc [] (map lower_char s)"

definition tfidf_sims :: "world \<Rightarrow> string \<Rightarrow> string list \<Rightarrow> error + real list" where
  "tfidf_sims w query chunks =
     (if concat (map tokenize (query # chunks)) = []
      then Inl (ValueError ''empty vocabulary; perhaps the documents only contain stop words'')
      else Inr (map (tfidf_cosine w query chunks) [0..<length chunks]))"

text \<open>
  \<open>np.argsort(sims)\<close>: the indices in ascending order of their scores. The default kind of
  sort is numpy's quicksort, which is not stable: in which order indices of equal score
  come out is the sort's own business. Here the indices are first put in the order of
  their rank \<open>argsort_ties w sims\<close> and then sorted stably by score. Every ascending
  arrangement of the indices is obtained for some rank (the position in that arrangement),
  and every rank gives an ascending arrangement. A constant rank leaves equal scores in
  index order, as the insertion sort does that numpy's quicksort applies to at most 16
  elements.
\<close>

definition argsort :: "world \<Rightarrow> real list \<Rightarrow> nat list" where
  "argsort w sims =
     sort_key (\<lambda>i. sims ! i) (sort_key (argsort_ties w sims) [0..<length sims])"

text \<open>\<open>np.argsort(sims)[::-1][:TOP_K_CHUNKS_FOR_QA]\<close>.\<close>

definition top_indices :: "world \<Rightarrow> real list \<Rightarrow> nat list" where
  "top_indices w sims = take TOP_K_CHUNKS_FOR_QA (rev (argsort w sims))"

text \<open>\<open>float(np.mean(top_scores)) if top_scores else 0.0\<close>, on real numbers.\<close>

definition mean_or_zero :: "real list \<Rightarrow> real" where
  "mean_or_zero top_scores =
     (if top_scores \<noteq> [] then sum_list top_scores / real (length top_scores) else 0)"

text \<open>
  One round of the loop of \<open>_tfidf_best_pdf_and_chunks\<close> on the state
  \<open>(best_pdf, best_score, best_chunks)\<close>; an exception of the vectoriser leaves the function.
\<close>

definition rank_step ::
  "world \<Rightarrow> string \<Rightarrow> string \<Rightarrow> string option \<times> real \<times> string list
     \<Rightarrow> error + (string option \<times> real \<times> string list)"
where
  "rank_step w query pdf st =
     (case st of (best_pdf, best_score, best_chunks) \<Rightarrow>
        (let text = extract_text_from_pdf_path w (path_join PDF_FOLDER pdf);
             chunks = chunk_text text MAX_WORDS_PER_CHUNK
         in if chunks = [] then Inr st
            else (case tfidf_sims w query chunks of
                    Inl e \<Rightarrow> Inl e
                  | Inr sims \<Rightarrow>
                      (let top_idx = top_indices w sims;
                           top_scores = map (\<lambda>i. sims ! i) top_idx;
                           avg_score = mean_or_zero top_scores
                       in if avg_score > best_score
                          then Inr (Some pdf, avg_score, map (\<lambda>i. chunks ! i) top_idx)
                          else Inr st))))"

fun rank_loop ::
  "world \<Rightarrow> string \<Rightarrow> string list \<Rightarrow> string option \<times> real \<times> string list
     \<Rightarrow> error + (string option \<times> real \<times> string list)"
where
  "rank_loop w query [] st = Inr st"
| "rank_loop w query (pdf # pdfs) st =
     (case rank_step w query pdf st of
        Inl e \<Rightarrow> Inl e
      | Inr st' \<Rightarrow> rank_loop w query pdfs st')"

definition tfidf_best_pdf_and_chunks ::
  "world \<Rightarrow> string \<Rightarrow> string list \<Rightarrow> error + (string \<times> string list \<times> real)"
where
  "tfidf_best_pdf_and_chunks w query pdf_names =
     (case rank_loop w query pdf_names (None, - 1, []) of
        Inl e \<Rightarrow> Inl e
      | Inr (best_pdf, best_score, best_chunks) \<Rightarrow>
          Inr ((case best_pdf of None \<Rightarrow> [] | Some p \<Rightarrow> p), best_chunks, max best_score 0))"

section \<open>Optional re-ranker\<close>

text \<open>
  The value \<open>sim\<close> of one round of the loop: \<open>0.0\<close> when the \<open>try\<close> block raises, when the
  response is not \<open>r.ok\<close> and when the key is missing, and otherwise whatever value the
  response holds under the key, of whatever type.
\<close>

definition similarity_of :: "http_outcome \<Rightarrow> json_value" where
  "similarity_of r =
     (case r of
        Request_raises \<Rightarrow> JNumber 0
      | Status_not_ok \<Rightarrow> JNumber 0
      | Json_body None \<Rightarrow> JNumber 0
      | Json_body (Some x) \<Rightarrow> x)"

text \<open>
  Python's \<open><\<close> on two such values: numbers and booleans (as 1 and 0) compare by value,
  strings by code points, and every other pair raises \<open>TypeError\<close>.
\<close>

fun as_number :: "json_value \<Rightarrow> real option" where
  "as_number (JNumber x) = Some x"
| "as_number (JBool b) = Some (if b then 1 else 0)"
| "as_number v = None"

definition py_lt :: "json_value \<Rightarrow> json_value \<Rightarrow> error + bool" where
  "py_lt a b =
     (case (as_number a, as_number b) of
        (Some x, Some y) \<Rightarrow> Inr (x < y)
      | _ \<Rightarrow> (case (a, b) of
                (JString s, JString t) \<Rightarrow> Inr (s < t)
              | _ \<Rightarrow> Inl TypeError))"

text \<open>
  \<open>list.sort(key=...)\<close> on the pairs \<open>(sim, c)\<close>, the key being \<open>sim\<close>: a stable sort in
  ascending order that uses only \<open><\<close> between keys and fails as soon as one comparison
  raises. It is written as an insertion sort. A list of fewer than two elements is not
  compared at all; in a longer list every element is compared with another one, so the
  sort raises exactly when the keys are not all numbers or all strings.
\<close>

fun insort_py ::
  "json_value \<times> string \<Rightarrow> (json_value \<times> string) list \<Rightarrow> error + (json_value \<times> string) list"
where
  "insort_py x [] = Inr [x]"
| "insort_py x (y # ys) =
     (case py_lt (fst y) (fst x) of
        Inl e \<Rightarrow> Inl e
      | Inr True \<Rightarrow> (case insort_py x ys of Inl e \<Rightarrow> Inl e | Inr zs \<Rightarrow> Inr (y # zs))
      | Inr False \<Rightarrow> Inr (x # y # ys))"

fun sort_py :: "(json_value \<times> string) list \<Rightarrow> error + (json_value \<times> string) list" where
  "sort_py [] = Inr []"
| "sort_py (x # xs) = (case sort_py xs of Inl e \<Rightarrow> Inl e | Inr ys \<Rightarrow> insort_py x ys)"

text \<open>
  \<open>scored.sort(key=..., reverse=True)\<close>: Python reverses the list, sorts it as above, and
  reverses it again.
\<close>

definition sort_reverse :: "(json_value \<times> string) list \<Rightarrow> error + (json_value \<times> string) list" where
  "sort_reverse scored =
     (case sort_py (rev scored) of Inl e \<Rightarrow> Inl e | Inr sorted_list \<Rightarrow> Inr (rev sorted_list))"

text \<open>
  \<open>_api_ninjas_refine\<close>. The loop over the chunks cannot raise; the sort after it is
  outside every \<open>try\<close>, and its exception leaves the function.
\<close>

definition api_ninjas_refine :: "world \<Rightarrow> string \<Rightarrow> string list \<Rightarrow> error + string list" where
  "api_ninjas_refine w query chunks =
     (let key = api_ninjas_key w
      in if key = [] \<or> key = ''your_api_ninjas_key_here'' then Inr chunks
         else (let scored = map (\<lambda>c. (similarity_of (api_ninjas_post w query c), c)) chunks
               in case sort_reverse scored of
                    Inl e \<Rightarrow> Inl e
                  | Inr sorted_list \<Rightarrow> Inr (map snd sorted_list)))"

section \<open>Pipeline orchestrators\<close>

definition answer_prompt :: "string \<Rightarrow> string \<Rightarrow> string \<Rightarrow> string" where
  "answer_prompt best_pdf context question =
     ''You are answering a question about the PDF titled '' @ [CHR 0x27] @ best_pdf
       @ [CHR 0x27] @ ''.'' @ [CHR 0x0A]
     @ ''Use ONLY the context below. If the answer is not present, say so clearly.''
       @ [CHR 0x0A, CHR 0x0A]
     @ ''Context:'' @ [CHR 0x0A] @ context @ [CHR 0x0A, CHR 0x0A]
     @ ''Question: '' @ question @ [CHR 0x0A]
     @ ''Answer concisely and, when helpful, quote short snippets in parentheses.''"

definition answer_question_auto :: "world \<Rightarrow> string \<Rightarrow> error + (string \<times> string \<times> real)" where
  "answer_question_auto w question =
     (let pdfs = discover_pdfs w
      in if pdfs = []
         then Inr (''[No PDFs found in the '' @ [CHR 0x27] @ ''pdfs'' @ [CHR 0x27] @ '' folder.]'',
                   [], 0)
         else (case tfidf_best_pdf_and_chunks w question pdfs of
                 Inl e \<Rightarrow> Inl e
               | Inr (best_pdf, top_chunks, score) \<Rightarrow>
                   if best_pdf = []
                   then Inr (''[Could not determine a relevant PDF for this question]'', [], 0)
                   else (case api_ninjas_refine w question top_chunks of
                           Inl e \<Rightarrow> Inl e
                         | Inr top_chunks \<Rightarrow>
                             (let context = join [CHR 0x0A, CHR 0x0A] top_chunks;
                                  prompt = answer_prompt best_pdf context question;
                                  out = chat_complete MODEL_PRIORITY (get_client w)
                                          [\<lparr>role = ''system'',
                                            content = ''You are a precise academic assistant.''\<rparr>,
                                           \<lparr>role = ''user'', content = prompt\<rparr>]
                              in Inr (out, best_pdf, score)))))"

definition summary_prompt :: "string \<Rightarrow> string \<Rightarrow> string \<Rightarrow> string" where
  "summary_prompt best_pdf prompt_text context =
     ''Based on the context snippets from the PDF '' @ [CHR 0x27] @ best_pdf @ [CHR 0x27]
     @ '', write a clean summary with short headings, covering the most relevant points to this request: ''
     @ [CHR 0x27] @ prompt_text @ [CHR 0x27] @ ''.'' @ [CHR 0x0A, CHR 0x0A]
     @ ''Context:'' @ [CHR 0x0A] @ context"

definition summarize_on_prompt :: "world \<Rightarrow> string \<Rightarrow> error + (string \<times> string \<times> real)" where
  "summarize_on_prompt w prompt_text =
     (let pdfs = discover_pdfs w
      in if pdfs = []
         then Inr (''[No PDFs found in the '' @ [CHR 0x27] @ ''pdfs'' @ [CHR 0x27] @ '' folder.]'',
                   [], 0)
         else (case tfidf_best_pdf_and_chunks w prompt_text pdfs of
                 Inl e \<Rightarrow> Inl e
               | Inr (best_pdf, top_chunks, score) \<Rightarrow>
                   if best_pdf = []
                   then Inr (''[Could not find relevant information to summarize. Please try again or refer the website]'',
                             [], 0)
                   else (let context = join [CHR 0x0A, CHR 0x0A] top_chunks;
                             final = chat_complete MODEL_PRIORITY (get_client w)
                                       [\<lparr>role = ''system'',
                                         content = ''You create faithful, high-level summaries of academic/policy PDFs.''\<rparr>,
                                        \<lparr>role = ''user'',
                                         content = summary_prompt best_pdf prompt_text context\<rparr>]
                         in Inr (final, best_pdf, score))))"

section \<open>Vocabulary of the statements\<close>

text \<open>A word: a non-empty string without whitespace.\<close>

definition clean :: "string \<Rightarrow> bool" where
  "clean w = (w \<noteq> [] \<and> (\<forall>c\<in>set w. \<not> is_space c))"

text \<open>
  A group of sentences, each given by its words, that may form one chunk under the limit
  \<open>L\<close>: at least one sentence, no sentence without words, and either at most \<open>L\<close> words in
  all or one single sentence of more than \<open>L\<close> words.
\<close>

definition group_ok :: "int \<Rightarrow> string list list \<Rightarrow> bool" where
  "group_ok L g = (g \<noteq> [] \<and> [] \<notin> set g \<and> (\<forall>ws\<in>set g. \<forall>w\<in>set ws. clean w) \<and>
      (int (length (concat g)) \<le> L \<or> (\<exists>ws. g = [ws] \<and> L < int (length ws))))"

text \<open>The chunk text of a group of sentences.\<close>

definition render :: "string list list \<Rightarrow> string" where
  "render g = join '' '' (concat g)"

text \<open>
  What one round of the ranking loop computes for one document, apart from the comparison
  with the best so far: its chunks, and the result of scoring it, which is an exception of
  the vectoriser, nothing for a document without chunks, or the mean score of its top
  chunks together with these chunks.
\<close>

definition pdf_chunks :: "world \<Rightarrow> string \<Rightarrow> string list" where
  "pdf_chunks w pdf =
     chunk_text (extract_text_from_pdf_path w (path_join PDF_FOLDER pdf)) MAX_WORDS_PER_CHUNK"

definition pdf_result :: "world \<Rightarrow> string \<Rightarrow> string \<Rightarrow> error + (real \<times> string list) option" where
  "pdf_result w query pdf =
     (let chunks = pdf_chunks w pdf
      in if chunks = [] then Inr None
         else (case tfidf_sims w query chunks of
                 Inl e \<Rightarrow> Inl e
               | Inr sims \<Rightarrow>
                   Inr (Some (mean_or_zero (map (\<lambda>i. sims ! i) (top_indices w sims)),
                              map (\<lambda>i. chunks ! i) (top_indices w sims)))))"

definition has_chunks :: "world \<Rightarrow> string \<Rightarrow> bool" where
  "has_chunks w pdf = (pdf_chunks w pdf \<noteq> [])"

section \<open>Example inputs\<close>

text \<open>
  A world with no PDF folder, no similarity key and no generation key, where the sort
  leaves equal scores in index order; and a text of 801 characters.
\<close>

definition w0 :: world where
  "w0 = \<lparr>folder = None, files = (\<lambda>p. None), tfidf_cosine = (\<lambda>q cs i. 0),
         argsort_ties = (\<lambda>sims i. 0), api_ninjas_key = [], api_ninjas_post = (\<lambda>q c. Request_raises),
         groq_cached = None, groq_api_key = [], groq_construct = (\<lambda>k. None)\<rparr>"

definition long_text :: string where
  "long_text = replicate 801 CHR ''x''"

text \<open>
  A world as \<open>w0\<close> whose generation client is there; the first model of the priority list
  is refused, the second answers, any other model is unknown.
\<close>

definition cl1 :: client where
  "cl1 model messages =
     (if model = ''llama-3.3-70b-versatile'' then Raises ''rate limit''
      else if model = ''llama-3.1-8b-instant'' then Response [''answer'', ''other'']
      else Raises ''unknown model'')"

definition w1 :: world where
  "w1 = w0\<lparr>groq_cached := Some cl1\<rparr>"

text \<open>
  A stand-in for the numbers of the vectoriser: the similarity of the query and a chunk is
  0 when they share no token, as the cosine of their TF-IDF vectors then is, and one half
  otherwise.
\<close>

definition overlap_cosine :: "string \<Rightarrow> string list \<Rightarrow> nat \<Rightarrow> real" where
  "overlap_cosine query chunks i =
     (if \<exists>t\<in>set (tokenize query). t \<in> set (tokenize (chunks ! i)) then 1 / 2 else 0)"

text \<open>
  A folder of PDF files: two short readable ones, one that cannot be opened, one whose only
  text is a page number, and one of 501 one-word sentences with an unreadable middle page.
\<close>

definition example_files :: "string \<Rightarrow> pdf_file option" where
  "example_files path =
     (if path = ''pdfs/a.pdf'' then Some (Pages [Some ''Dogs bark.''])
      else if path = ''pdfs/b.pdf'' then Some (Pages [Some ''Cats purr. Cats sleep.''])
      else if path = ''pdfs/c.PDF'' then Some Unreadable
      else if path = ''pdfs/n.pdf'' then Some (Pages [Some ''7''])
      else if path = ''pdfs/long.pdf''
        then Some (Pages [Some (concat (replicate 500 ''aa. '')), None, Some ''bb.''])
      else None)"

definition w2 :: world where
  "w2 = w0\<lparr>folder := Some [''b.pdf'', ''notes.txt'', ''c.PDF'', ''a.pdf''],
           files := example_files, tfidf_cosine := overlap_cosine\<rparr>"

text \<open>The same files, the folder listing only the one with the page number.\<close>

definition w3 :: world where
  "w3 = w2\<lparr>folder := Some [''n.pdf'']\<rparr>"

text \<open>
  The same files under a sort that is not stable: of the indices of equal score it leaves
  6 last, 1 before it and 2 before that, and the others in index order.
\<close>

definition w5 :: world where
  "w5 = w2\<lparr>argsort_ties :=
          (\<lambda>sims i. if i = 6 then 3 else if i = 1 then 2 else if i = 2 then 1 else 0)\<rparr>"

text \<open>
  A similarity service with a key: it scores two chunks, fails on a third, and answers
  \<open>null\<close> for every other chunk.
\<close>

definition example_post :: "string \<Rightarrow> string \<Rightarrow> http_outcome" where
  "example_post query c =
     (if c = ''Dogs bark.'' then Json_body (Some (JNumber 0))
      else if c = ''Cats purr. Cats sleep.'' then Json_body (Some (JNumber 1))
      else if c = ''Birds sing.'' then Request_raises
      else Json_body (Some JNull))"

definition w4 :: world where
  "w4 = w2\<lparr>api_ninjas_key := ''key'', api_ninjas_post := example_post\<rparr>"

section \<open>Words and joins\<close>

lemma split_acc_space_cut:
  "is_space c \<Longrightarrow> split_acc cur (a @ c # b) = split_acc cur a @ split_acc [] b"
  by (induction a arbitrary: cur) auto

lemma split_acc_nospace:
  "\<forall>c\<in>set w. \<not> is_space c \<Longrightarrow> split_acc cur (w @ r) = split_acc (cur @ w) r"
  by (induction w arbitrary: cur) auto

lemma split_acc_drop_spaces:
  "split_acc [] (dropWhile is_space b) = split_acc [] b"
  by (induction b) auto

lemma split_acc_trailing:
  "\<forall>c\<in>set b. is_space c \<Longrightarrow> split_acc cur (a @ b) = split_acc cur a"
proof (induction a arbitrary: cur)
  case Nil
  then show ?case by (induction b arbitrary: cur) auto
next
  case (Cons x a)
  then show ?case by auto
qed

lemma split_strip: "split (strip s) = split s"
proof -
  let ?t = "dropWhile is_space s"
  have "?t = rev (dropWhile is_space (rev ?t)) @ rev (takeWhile is_space (rev ?t))"
    by (metis rev_append rev_rev_ident takeWhile_dropWhile_id)
  moreover have "\<forall>c\<in>set (rev (takeWhile is_space (rev ?t))). is_space c"
    by (auto dest: set_takeWhileD)
  ultimately have "split_acc [] ?t = split_acc [] (rev (dropWhile is_space (rev ?t)))"
    by (metis split_acc_trailing)
  then show ?thesis
    by (simp add: split_def strip_def split_acc_drop_spaces)
qed

lemma split_acc_clean:
  "\<forall>c\<in>set cur. \<not> is_space c \<Longrightarrow> w \<in> set (split_acc cur s) \<Longrightarrow> clean w"
proof (induction s arbitrary: cur)
  case Nil
  then show ?case by (auto simp: clean_def split: if_splits)
next
  case (Cons c s)
  show ?case
  proof (cases "is_space c")
    case True
    with Cons.prems Cons.IH [of "[]"] show ?thesis
      by (auto simp: clean_def split: if_splits)
  next
    case False
    with Cons.prems Cons.IH [of "cur @ [c]"] show ?thesis by auto
  qed
qed

lemma split_clean: "\<forall>w\<in>set (split s). clean w"
  using split_acc_clean [of "[]" _ s] by (simp add: split_def)

lemma split_single: "clean w \<Longrightarrow> split w = [w]"
  using split_acc_nospace [of w "[]" "[]"] by (simp add: split_def clean_def)

lemma split_join:
  "\<forall>w\<in>set ws. clean w \<Longrightarrow> split (join '' '' ws) = ws"
proof (induction "'' ''" ws rule: join.induct)
  case (3 w v vs)
  have "split_acc [] (w @ CHR '' '' # join '' '' (v # vs))
        = split_acc [] w @ split_acc [] (join '' '' (v # vs))"
    by (rule split_acc_space_cut) (simp add: is_space_def)
  with 3 show ?case by (simp add: split_def split_single[unfolded split_def])
qed (simp_all add: split_def split_single[unfolded split_def])

section \<open>Sentences keep the words\<close>

lemma re_split_words:
  "concat (map split (re_split_acc cur s)) = split (cur @ s)"
proof (induction cur s rule: re_split_acc.induct)
  case (1 cur)
  then show ?case by simp
next
  case (2 cur c cs)
  show ?case
  proof (cases "is_space c \<and> cur \<noteq> [] \<and> is_sentence_end (last cur)")
    case True
    then have "split (cur @ c # cs) = split cur @ split cs"
      by (simp add: split_def split_acc_space_cut)
    with True 2 show ?thesis
      by (simp add: split_def split_acc_drop_spaces)
  next
    case False
    with 2 show ?thesis by auto
  qed
qed

lemma sentences_words: "concat (map split (split_into_sentences t)) = split t"
  by (simp add: split_into_sentences_def re_split_words split_strip)

section \<open>The chunker groups whole sentences\<close>

lemma chunk_loop_groups:
  assumes "\<forall>h\<in>set gs. group_ok L h" "g = [] \<or> group_ok L g"
  shows "\<exists>gs' g'. chunk_loop L ss (map render gs, concat g, int (length (concat g)))
                    = (map render gs', concat g', int (length (concat g')))
          \<and> (\<forall>h\<in>set gs'. group_ok L h) \<and> (g' = [] \<or> group_ok L g')
          \<and> concat gs' @ g' = concat gs @ g @ filter (\<lambda>ws. ws \<noteq> []) (map split ss)"
  using assms
proof (induction ss arbitrary: gs g)
  case Nil
  then show ?case by auto
next
  case (Cons s ss)
  let ?ws = "split s"
  have cl: "\<forall>w\<in>set ?ws. clean w" by (rule split_clean)
  show ?case
  proof (cases "?ws = []")
    case True
    with Cons.IH [OF Cons.prems] show ?thesis by simp
  next
    case ne: False
    show ?thesis
    proof (cases "int (length (concat g)) + int (length ?ws) > L")
      case True
      have ok1: "group_ok L [?ws]"
        using ne cl by (auto simp: group_ok_def)
      let ?gs1 = "if g = [] then gs else gs @ [g]"
      have gnil: "concat g \<noteq> [] \<longleftrightarrow> g \<noteq> []"
        using Cons.prems(2) by (cases g) (auto simp: group_ok_def)
      have oks: "\<forall>h\<in>set ?gs1. group_ok L h"
        using Cons.prems by auto
      from Cons.IH [OF oks, of "[?ws]"] ok1
      obtain gs' g' where
        *: "chunk_loop L ss (map render ?gs1, concat [?ws], int (length (concat [?ws])))
            = (map render gs', concat g', int (length (concat g')))"
          "\<forall>h\<in>set gs'. group_ok L h" "g' = [] \<or> group_ok L g'"
          "concat gs' @ g' = concat ?gs1 @ [?ws] @ filter (\<lambda>ws. ws \<noteq> []) (map split ss)"
        by blast
      have step: "chunk_loop L (s # ss) (map render gs, concat g, int (length (concat g)))
            = chunk_loop L ss (map render ?gs1, concat [?ws], int (length (concat [?ws])))"
        using ne True gnil by (simp add: render_def Let_def)
      show ?thesis
        using * ne unfolding step by (intro exI [of _ gs'] exI [of _ g']) auto
    next
      case False
      have ok2: "group_ok L (g @ [?ws])"
        using False ne cl Cons.prems(2) by (auto simp: group_ok_def)
      from Cons.IH [OF Cons.prems(1), of "g @ [?ws]"] ok2
      obtain gs' g' where
        *: "chunk_loop L ss (map render gs, concat (g @ [?ws]), int (length (concat (g @ [?ws]))))
            = (map render gs', concat g', int (length (concat g')))"
          "\<forall>h\<in>set gs'. group_ok L h" "g' = [] \<or> group_ok L g'"
          "concat gs' @ g' = concat gs @ (g @ [?ws]) @ filter (\<lambda>ws. ws \<noteq> []) (map split ss)"
        by blast
      have step: "chunk_loop L (s # ss) (map render gs, concat g, int (length (concat g)))
            = chunk_loop L ss (map render gs, concat (g @ [?ws]), int (length (concat (g @ [?ws]))))"
        using ne False by (simp add: Let_def)
      show ?thesis
        using * ne unfolding step by (intro exI [of _ gs'] exI [of _ g']) auto
    qed
  qed
qed

lemma chunk_text_groups:
  "\<exists>gs. chunk_text T L = map render gs \<and> (\<forall>h\<in>set gs. group_ok L h)
        \<and> concat gs = filter (\<lambda>ws. ws \<noteq> []) (map split (split_into_sentences T))"
proof -
  from chunk_loop_groups [of "[]" L "[]" "split_into_sentences T"]
  obtain gs' g' where
    *: "chunk_loop L (split_into_sentences T) ([], [], 0)
          = (map render gs', concat g', int (length (concat g')))"
       "\<forall>h\<in>set gs'. group_ok L h" "g' = [] \<or> group_ok L g'"
       "concat gs' @ g' = filter (\<lambda>ws. ws \<noteq> []) (map split (split_into_sentences T))"
    by auto
  have gnil: "concat g' \<noteq> [] \<longleftrightarrow> g' \<noteq> []"
    using *(3) by (cases g') (auto simp: group_ok_def)
  show ?thesis
  proof (cases "g' = []")
    case True
    with * show ?thesis
      by (intro exI [of _ gs']) (simp add: chunk_text_def)
  next
    case False
    with * gnil show ?thesis
      by (intro exI [of _ "gs' @ [g']"]) (auto simp: chunk_text_def render_def)
  qed
qed

lemma split_render: "group_ok L g \<Longrightarrow> split (render g) = concat g"
  unfolding render_def by (rule split_join) (auto simp: group_ok_def)

lemma concat_filter_nonempty: "concat (filter (\<lambda>ws. ws \<noteq> []) xss) = concat xss"
  by (induction xss) auto

text \<open>
  Claim C3. For every text \<open>T\<close> and every limit \<open>L\<close> (positive or not), the words of the
  chunks of \<open>chunk_text T L\<close>, taken chunk after chunk, are exactly the words of \<open>T\<close>, in
  the same order: chunking only changes the whitespace between words.
\<close>

theorem chunk_text_roundtrip:
  "concat (map split (chunk_text T L)) = split T"
proof -
  from chunk_text_groups [of T L] obtain gs where
    *: "chunk_text T L = map render gs" "\<forall>h\<in>set gs. group_ok L h"
       "concat gs = filter (\<lambda>ws. ws \<noteq> []) (map split (split_into_sentences T))"
    by blast
  have "map split (map render gs) = map concat gs"
    using *(2) by (auto simp: split_render)
  moreover have "concat (map concat gs) = concat (concat gs)"
    by (induction gs) auto
  ultimately have "concat (map split (chunk_text T L)) = concat (concat gs)"
    unfolding *(1) by metis
  also have "\<dots> = concat (map split (split_into_sentences T))"
    unfolding *(3) by (rule concat_filter_nonempty)
  finally show ?thesis by (simp add: sentences_words)
qed

text \<open>
  Claim C4. The chunks of \<open>chunk_text T L\<close> are the texts of consecutive groups \<open>gs\<close> of
  whole sentences of \<open>T\<close> (the sentences that have words, each given by its words): no
  sentence is split. The words of a chunk are the words of its group, and every group has
  at most \<open>L\<close> words or is one single sentence of more than \<open>L\<close> words.
\<close>

theorem chunk_text_soft_cap:
  "\<exists>gs. concat gs = filter (\<lambda>ws. ws \<noteq> []) (map split (split_into_sentences T))
      \<and> chunk_text T L = map (\<lambda>g. join '' '' (concat g)) gs
      \<and> map split (chunk_text T L) = map concat gs
      \<and> (\<forall>g\<in>set gs. g \<noteq> [] \<and> [] \<notin> set g
            \<and> (int (length (concat g)) \<le> L \<or> (\<exists>ws. g = [ws] \<and> L < int (length ws))))"
proof -
  from chunk_text_groups [of T L] obtain gs where
    *: "chunk_text T L = map render gs" "\<forall>h\<in>set gs. group_ok L h"
       "concat gs = filter (\<lambda>ws. ws \<noteq> []) (map split (split_into_sentences T))"
    by blast
  have "map split (map render gs) = map concat gs"
    using *(2) by (auto simp: split_render)
  with * show ?thesis
    by (intro exI [of _ gs]) (auto simp: render_def group_ok_def)
qed

theorem chunk_text_soft_cap_witness:
  "\<exists>gs. concat gs = [[''Hi'', ''there.''], [''Go'', ''now!''],
                      [''A'', ''very'', ''long'', ''sentence'', ''here.''], [''ok'']]
      \<and> [''Hi there.'', ''Go now!'', ''A very long sentence here.'', ''ok'']
          = map (\<lambda>g. join '' '' (concat g)) gs
      \<and> map split [''Hi there.'', ''Go now!'', ''A very long sentence here.'', ''ok'']
          = map concat gs
      \<and> (\<forall>g\<in>set gs. g \<noteq> [] \<and> [] \<notin> set g
            \<and> (int (length (concat g)) \<le> 2 \<or> (\<exists>ws. g = [ws] \<and> 2 < int (length ws))))"
proof -
  have e1: "filter (\<lambda>ws. ws \<noteq> [])
              (map split (split_into_sentences ''Hi there.  Go now! A very long sentence here. ok''))
            = [[''Hi'', ''there.''], [''Go'', ''now!''],
               [''A'', ''very'', ''long'', ''sentence'', ''here.''], [''ok'']]"
    by code_simp
  have e2: "chunk_text ''Hi there.  Go now! A very long sentence here. ok'' 2
            = [''Hi there.'', ''Go now!'', ''A very long sentence here.'', ''ok'']"
    by code_simp
  from chunk_text_soft_cap [of "''Hi there.  Go now! A very long sentence here. ok''" 2]
  show ?thesis unfolding e1 e2 .
qed

section \<open>The generation client always answers with a text\<close>

lemma fallback_scan_append:
  "fallback_scan (xs @ ys) =
     (if \<exists>m\<in>set xs. role m = ''user'' then fallback_scan xs else fallback_scan ys)"
  by (induction xs) (auto simp: Let_def)

lemma fallback_scan_rev:
  "\<exists>m\<in>set messages. role m = ''user'' \<Longrightarrow>
   fallback_scan (rev messages) =
     (let txt = content (last (filter (\<lambda>m. role m = ''user'') messages))
      in take 800 txt @ (if length txt > 800 then ''...'' else []))"
proof (induction messages)
  case Nil
  then show ?case by simp
next
  case (Cons m ms)
  show ?case
  proof (cases "\<exists>m\<in>set ms. role m = ''user''")
    case True
    then have "filter (\<lambda>m. role m = ''user'') ms \<noteq> []"
      by (simp add: filter_empty_conv)
    with True Cons.IH show ?thesis
      by (simp add: fallback_scan_append)
  next
    case False
    then have "filter (\<lambda>m. role m = ''user'') ms = []"
      by (simp add: filter_empty_conv)
    with False Cons.prems show ?thesis
      by (auto simp: fallback_scan_append Let_def)
  qed
qed

text \<open>
  Claim C6. With no client cached and no key (or the placeholder key) configured, and a
  message list with at least one user turn, \<open>_chat_complete\<close> returns the content of the
  last user turn cut to 800 characters, followed by \<open>...\<close> exactly when that content is
  longer than 800 characters.
\<close>

theorem chat_complete_fallback:
  assumes "groq_cached w = None"
    and "groq_api_key w = [] \<or> groq_api_key w = ''your_groq_api_key_here''"
    and "\<exists>m\<in>set messages. role m = ''user''"
  shows "chat_complete models (get_client w) messages =
           (let txt = content (last (filter (\<lambda>m. role m = ''user'') messages))
            in take 800 txt @ (if length txt > 800 then ''...'' else []))"
proof -
  have "get_client w = None"
    using assms(1,2) by (auto simp: get_client_def)
  then show ?thesis
    using fallback_scan_rev [OF assms(3)] by (simp add: chat_complete_def)
qed

lemma length_long_text: "length long_text = 801"
  by (simp add: long_text_def)

theorem chat_complete_fallback_witness:
  "chat_complete MODEL_PRIORITY (get_client w0)
     [\<lparr>role = ''system'', content = ''Be brief.''\<rparr>, \<lparr>role = ''user'', content = ''first''\<rparr>,
      \<lparr>role = ''user'', content = long_text\<rparr>,
      \<lparr>role = ''system'', content = ''last''\<rparr>]
   = take 800 long_text @ ''...''
   \<and> chat_complete MODEL_PRIORITY (get_client w0)
     [\<lparr>role = ''user'', content = ''first''\<rparr>, \<lparr>role = ''system'', content = long_text\<rparr>]
   = ''first''"
proof -
  let ?ms = "[\<lparr>role = ''system'', content = ''Be brief.''\<rparr>, \<lparr>role = ''user'', content = ''first''\<rparr>,
      \<lparr>role = ''user'', content = long_text\<rparr>,
      \<lparr>role = ''system'', content = ''last''\<rparr>]"
  let ?ns = "[\<lparr>role = ''user'', content = ''first''\<rparr>, \<lparr>role = ''system'', content = long_text\<rparr>]"
  have 1: "groq_cached w0 = None" by (simp add: w0_def)
  have 2: "groq_api_key w0 = [] \<or> groq_api_key w0 = ''your_groq_api_key_here''"
    by (simp add: w0_def)
  have 3: "\<exists>m\<in>set ?ms. role m = ''user''" by simp
  have 4: "\<exists>m\<in>set ?ns. role m = ''user''" by simp
  show ?thesis
    using chat_complete_fallback [OF 1 2 3, of MODEL_PRIORITY]
      chat_complete_fallback [OF 1 2 4, of MODEL_PRIORITY]
    by (simp add: Let_def length_long_text)
qed

lemma try_models_skip:
  "\<forall>m\<in>set pre. \<forall>c cs. cl m messages \<noteq> Response (c # cs) \<Longrightarrow>
   cl model messages = Response (c # cs) \<Longrightarrow>
   try_models cl messages err (pre @ model # post) = c"
proof (induction pre arbitrary: err)
  case Nil
  then show ?case by simp
next
  case (Cons m pre)
  then show ?case
    by (cases "cl m messages") (auto split: list.splits)
qed

lemma try_models_all_raise:
  "\<forall>m\<in>set models. \<exists>e. cl m messages = Raises e \<Longrightarrow>
   try_models cl messages err models =
     ''[LLM error: '' @ (if models = [] then (case err of None \<Rightarrow> ''None'' | Some e \<Rightarrow> e)
                         else (case cl (last models) messages of Raises e \<Rightarrow> e | Response cs \<Rightarrow> [])) @ '']''"
proof (induction models arbitrary: err)
  case Nil
  then show ?case by simp
next
  case (Cons m models)
  then obtain e where e: "cl m messages = Raises e" by auto
  with Cons show ?case by (cases models) auto
qed

text \<open>
  Claim C7. With a client: when every candidate before \<open>model\<close> gives no choice (it raises
  or answers without choices) and \<open>model\<close> answers with a non-empty list of choices,
  \<open>_chat_complete\<close> returns the content of the first choice of \<open>model\<close>, whatever the
  later candidates \<open>post\<close> would do. When the candidate list is non-empty and every
  candidate raises, it returns \<open>[LLM error: e]\<close> where \<open>e\<close> is the message of the exception
  of the last candidate. In both cases the result is a text: the function has no failing
  branch.
\<close>

theorem chat_complete_retry:
  assumes "get_client w = Some cl"
  shows "((\<forall>m\<in>set pre. \<forall>c cs. cl m messages \<noteq> Response (c # cs)) \<and>
          cl model messages = Response (c # cs)
            \<longrightarrow> chat_complete (pre @ model # post) (get_client w) messages = c)
       \<and> (models \<noteq> [] \<and> (\<forall>m\<in>set models. \<exists>e. cl m messages = Raises e)
            \<longrightarrow> (\<exists>e. cl (last models) messages = Raises e \<and>
                     chat_complete models (get_client w) messages = ''[LLM error: '' @ e @ '']''))"
proof (intro conjI impI)
  assume "(\<forall>m\<in>set pre. \<forall>c cs. cl m messages \<noteq> Response (c # cs)) \<and>
          cl model messages = Response (c # cs)"
  then show "chat_complete (pre @ model # post) (get_client w) messages = c"
    using assms by (simp add: chat_complete_def try_models_skip)
next
  assume a: "models \<noteq> [] \<and> (\<forall>m\<in>set models. \<exists>e. cl m messages = Raises e)"
  then obtain e where e: "cl (last models) messages = Raises e"
    using last_in_set by blast
  from a have "try_models cl messages None models = ''[LLM error: '' @ e @ '']''"
    using try_models_all_raise [of models cl messages None] e by simp
  with e show "\<exists>e. cl (last models) messages = Raises e \<and>
                 chat_complete models (get_client w) messages = ''[LLM error: '' @ e @ '']''"
    using assms by (simp add: chat_complete_def)
qed

theorem chat_complete_retry_witness:
  "chat_complete MODEL_PRIORITY (get_client w1) [\<lparr>role = ''user'', content = ''hello''\<rparr>] = ''answer''
   \<and> chat_complete [''llama-3.3-70b-versatile'', ''other-model''] (get_client w1)
         [\<lparr>role = ''user'', content = ''hello''\<rparr>] = ''[LLM error: unknown model]''"
proof -
  let ?ms = "[\<lparr>role = ''user'', content = ''hello''\<rparr>]"
  have g: "get_client w1 = Some cl1"
    by (simp add: get_client_def w1_def)
  have a: "\<forall>m\<in>set [''llama-3.3-70b-versatile'']. \<forall>c cs. cl1 m ?ms \<noteq> Response (c # cs)"
    by (simp add: cl1_def)
  have b: "cl1 ''llama-3.1-8b-instant'' ?ms = Response (''answer'' # [''other''])"
    by (simp add: cl1_def)
  have c: "[''llama-3.3-70b-versatile'', ''other-model''] \<noteq> []
           \<and> (\<forall>m\<in>set [''llama-3.3-70b-versatile'', ''other-model'']. \<exists>e. cl1 m ?ms = Raises e)"
    by (simp add: cl1_def)
  have d: "cl1 (last [''llama-3.3-70b-versatile'', ''other-model'']) ?ms = Raises ''unknown model''"
    by (simp add: cl1_def)
  from chat_complete_retry [OF g, of "[''llama-3.3-70b-versatile'']" ?ms "''llama-3.1-8b-instant''"
      "''answer''" "[''other'']" "[]" "[''llama-3.3-70b-versatile'', ''other-model'']"] a b c d
  show ?thesis by (auto simp: MODEL_PRIORITY_def)
qed

section \<open>The re-ranker permutes\<close>









text \<open>
  The exception of the sort is there: with a key, two chunks and the answer \<open>null\<close> for one
  of them, the comparison of the two similarities raises.
\<close>

lemma api_ninjas_refine_null_raises:
  "api_ninjas_refine w4 ''pets'' [''Dogs bark.'', ''Fish swim.''] = Inl TypeError"
  by code_simp



section \<open>Ranking loop\<close>

lemma rank_step_result:
  "rank_step w query pdf (bp, bs, bc) =
     (case pdf_result w query pdf of
        Inl e \<Rightarrow> Inl e
      | Inr None \<Rightarrow> Inr (bp, bs, bc)
      | Inr (Some (avg, tc)) \<Rightarrow> if avg > bs then Inr (Some pdf, avg, tc) else Inr (bp, bs, bc))"
  by (simp add: rank_step_def pdf_result_def pdf_chunks_def Let_def split: sum.splits)

lemma rank_loop_selects:
  assumes "rank_loop w q pdfs (bp, bs, bc) = Inr (bp', bs', bc')"
  shows "((bp', bs', bc') = (bp, bs, bc) \<and>
          (\<forall>p\<in>set (filter (has_chunks w) pdfs). \<exists>a c. pdf_result w q p = Inr (Some (a, c)) \<and> a \<le> bs))
       \<or> (\<exists>pre best post. filter (has_chunks w) pdfs = pre @ best # post \<and> bp' = Some best \<and>
             pdf_result w q best = Inr (Some (bs', bc')) \<and> bs < bs' \<and>
             (\<forall>p\<in>set pre. \<exists>a c. pdf_result w q p = Inr (Some (a, c)) \<and> a < bs') \<and>
             (\<forall>p\<in>set post. \<exists>a c. pdf_result w q p = Inr (Some (a, c)) \<and> a \<le> bs'))"
  using assms
proof (induction pdfs arbitrary: bp bs bc)
  case Nil
  then show ?case by simp
next
  case (Cons p pdfs)
  show ?case
  proof (cases "pdf_result w q p")
    case (Inl e)
    with Cons.prems show ?thesis by (simp add: rank_step_result)
  next
    case (Inr r)
    show ?thesis
    proof (cases r)
      case None
      with Inr have nc: "\<not> has_chunks w p"
        by (auto simp: pdf_result_def has_chunks_def Let_def split: if_splits sum.splits)
      from Cons.prems Inr None have "rank_loop w q pdfs (bp, bs, bc) = Inr (bp', bs', bc')"
        by (simp add: rank_step_result)
      from Cons.IH [OF this] nc show ?thesis by simp
    next
      case (Some ac)
      obtain a c where ac: "ac = (a, c)" by (cases ac)
      with Inr Some have hc: "has_chunks w p"
        by (auto simp: pdf_result_def has_chunks_def Let_def split: if_splits sum.splits)
      have res: "pdf_result w q p = Inr (Some (a, c))" using Inr Some ac by simp
      show ?thesis
      proof (cases "a > bs")
        case True
        with Cons.prems res have "rank_loop w q pdfs (Some p, a, c) = Inr (bp', bs', bc')"
          by (simp add: rank_step_result)
        from Cons.IH [OF this] show ?thesis
        proof (elim disjE exE conjE)
          assume "(bp', bs', bc') = (Some p, a, c)"
            and "\<forall>p\<in>set (filter (has_chunks w) pdfs). \<exists>a' c. pdf_result w q p = Inr (Some (a', c)) \<and> a' \<le> a"
          then show ?thesis
            using hc res True
            by (intro disjI2 exI [of _ "[]"] exI [of _ p] exI [of _ "filter (has_chunks w) pdfs"]) auto
        next
          fix pre best post
          assume "filter (has_chunks w) pdfs = pre @ best # post" "bp' = Some best"
            "pdf_result w q best = Inr (Some (bs', bc'))" "a < bs'"
            "\<forall>p\<in>set pre. \<exists>a c. pdf_result w q p = Inr (Some (a, c)) \<and> a < bs'"
            "\<forall>p\<in>set post. \<exists>a c. pdf_result w q p = Inr (Some (a, c)) \<and> a \<le> bs'"
          then show ?thesis
            using hc res True
            by (intro disjI2 exI [of _ "p # pre"] exI [of _ best] exI [of _ post]) auto
        qed
      next
        case False
        with Cons.prems res have "rank_loop w q pdfs (bp, bs, bc) = Inr (bp', bs', bc')"
          by (simp add: rank_step_result)
        from Cons.IH [OF this] show ?thesis
        proof (elim disjE exE conjE)
          assume "(bp', bs', bc') = (bp, bs, bc)"
            and "\<forall>p\<in>set (filter (has_chunks w) pdfs). \<exists>a' c. pdf_result w q p = Inr (Some (a', c)) \<and> a' \<le> bs"
          then show ?thesis
            using hc res False by auto
        next
          fix pre best post
          assume "filter (has_chunks w) pdfs = pre @ best # post" "bp' = Some best"
            "pdf_result w q best = Inr (Some (bs', bc'))" "bs < bs'"
            "\<forall>p\<in>set pre. \<exists>a c. pdf_result w q p = Inr (Some (a, c)) \<and> a < bs'"
            "\<forall>p\<in>set post. \<exists>a c. pdf_result w q p = Inr (Some (a, c)) \<and> a \<le> bs'"
          then show ?thesis
            using hc res False
            by (intro disjI2 exI [of _ "p # pre"] exI [of _ best] exI [of _ post]) auto
        qed
      qed
    qed
  qed
qed

lemma argsort_set: "set (argsort w sims) = {..<length sims}"
  by (auto simp: argsort_def)

lemma argsort_distinct: "distinct (argsort w sims)"
  by (simp add: argsort_def)

lemma argsort_sorted: "sorted_wrt (\<lambda>i j. sims ! i \<le> sims ! j) (argsort w sims)"
proof -
  have "sorted (map (\<lambda>i. sims ! i) (argsort w sims))"
    unfolding argsort_def by (rule sorted_sort_key)
  then show ?thesis by (rule sorted_map [THEN iffD1])
qed

lemma rev_argsort_sorted: "sorted_wrt (\<lambda>i j. sims ! j \<le> sims ! i) (rev (argsort w sims))"
  using argsort_sorted [of sims w] by (simp add: sorted_wrt_rev)

lemma top_indices_order:
  "sorted_wrt (\<lambda>i j. sims ! j \<le> sims ! i) (top_indices w sims)"
  unfolding top_indices_def using rev_argsort_sorted by (rule sorted_wrt_take)

lemma top_indices_range: "set (top_indices w sims) \<subseteq> {..<length sims}"
proof
  fix i
  assume "i \<in> set (top_indices w sims)"
  then have "i \<in> set (rev (argsort w sims))"
    unfolding top_indices_def by (rule in_set_takeD)
  then show "i \<in> {..<length sims}"
    using argsort_set [of w sims] by simp
qed

lemma top_indices_distinct: "distinct (top_indices w sims)"
  by (simp add: top_indices_def argsort_distinct distinct_take)

lemma top_indices_length:
  "length (top_indices w sims) = min TOP_K_CHUNKS_FOR_QA (length sims)"
  by (simp add: top_indices_def argsort_def)

lemma top_indices_top:
  assumes "i \<in> set (top_indices w sims)" "j < length sims" "j \<notin> set (top_indices w sims)"
  shows "sims ! j \<le> sims ! i"
proof -
  let ?r = "rev (argsort w sims)"
  let ?k = TOP_K_CHUNKS_FOR_QA
  have "sorted_wrt (\<lambda>i j. sims ! j \<le> sims ! i) (take ?k ?r @ drop ?k ?r)"
    using rev_argsort_sorted [of sims w] by simp
  then have *: "\<forall>x\<in>set (take ?k ?r). \<forall>y\<in>set (drop ?k ?r). sims ! y \<le> sims ! x"
    unfolding sorted_wrt_append by blast
  have "j \<in> set ?r" using assms(2) argsort_set [of w sims] by simp
  moreover have "set ?r = set (take ?k ?r) \<union> set (drop ?k ?r)"
    by (simp only: set_append [symmetric] append_take_drop_id)
  ultimately have "j \<in> set (take ?k ?r) \<union> set (drop ?k ?r)"
    by simp
  with assms(3) have "j \<in> set (drop ?k ?r)" by (simp add: top_indices_def)
  with * assms(1) show ?thesis by (simp add: top_indices_def)
qed



lemma pdf_result_has_chunks:
  "pdf_result w q p = Inr (Some ac) \<Longrightarrow> has_chunks w p"
  by (auto simp: pdf_result_def has_chunks_def Let_def split: if_splits sum.splits)



section \<open>A document of two chunks with equal scores\<close>

lemma strip_id:
  assumes "s \<noteq> []" "\<not> is_space (hd s)" "\<not> is_space (last s)"
  shows "strip s = s"
proof -
  have 1: "dropWhile is_space s = s"
    using assms(1,2) by (cases s) auto
  obtain xs x where s: "s = xs @ [x]"
    using assms(1) by (metis append_butlast_last_id)
  with assms(3) have 2: "dropWhile is_space (rev s) = rev s" by simp
  show ?thesis by (simp add: strip_def 1 2)
qed

lemma space_facts:
  "\<not> is_space CHR ''a''" "\<not> is_space CHR ''b''" "\<not> is_space CHR ''.''"
  "is_space CHR '' ''" "is_space (CHR 0x0A)"
  "is_sentence_end CHR ''.''"
  by (simp_all add: is_space_def is_sentence_end_def)

lemma re_split_aa:
  "re_split_acc [] (dropWhile is_space (concat (replicate n ''aa. '') @ rest))
   = replicate n ''aa.'' @ re_split_acc [] (dropWhile is_space rest)"
  by (induction n) (simp_all add: space_facts)

lemma split_aa: "split ''aa.'' = [''aa.'']"
  by code_simp

lemma split_bb: "split ''bb.'' = [''bb.'']"
  by code_simp

lemma chunk_loop_aa:
  "int (k + n) \<le> L \<Longrightarrow>
   chunk_loop L (replicate n ''aa.'' @ rest) (chunks, replicate k ''aa.'', int k)
   = chunk_loop L rest (chunks, replicate (k + n) ''aa.'', int (k + n))"
proof (induction n arbitrary: k)
  case 0
  then show ?case by simp
next
  case (Suc n)
  with Suc.IH [of "Suc k"] show ?case
    by (simp add: split_aa Let_def replicate_append_same add.commute)
qed

lemma chunk_text_aa_bb:
  assumes "0 < n"
  shows "chunk_text (concat (replicate n ''aa. '') @ [CHR 0x0A] @ ''bb.'') (int n)
         = [join '' '' (replicate n ''aa.''), ''bb.'']"
proof -
  let ?t = "concat (replicate n ''aa. '') @ [CHR 0x0A] @ ''bb.''"
  obtain m where n: "n = Suc m" using assms by (cases n) auto
  have "strip ?t = ?t"
    by (rule strip_id) (simp_all add: n space_facts)
  moreover have "dropWhile is_space ?t = ?t"
    by (simp add: n space_facts)
  ultimately have "split_into_sentences ?t = replicate n ''aa.'' @ re_split_acc [] (dropWhile is_space ([CHR 0x0A] @ ''bb.''))"
    using re_split_aa [of n "[CHR 0x0A] @ ''bb.''"] by (simp add: split_into_sentences_def)
  also have "re_split_acc [] (dropWhile is_space ([CHR 0x0A] @ ''bb.'')) = [''bb.'']"
    by (simp add: space_facts)
  finally have s: "split_into_sentences ?t = replicate n ''aa.'' @ [''bb.'']" .
  have "chunk_loop (int n) (replicate n ''aa.'' @ [''bb.'']) ([], replicate 0 ''aa.'', int 0)
        = chunk_loop (int n) [''bb.''] ([], replicate (0 + n) ''aa.'', int (0 + n))"
    by (rule chunk_loop_aa) simp
  also have "\<dots> = ([join '' '' (replicate n ''aa.'')], [''bb.''], 1)"
    using assms by (simp add: split_bb Let_def)
  finally have "chunk_loop (int n) (replicate n ''aa.'' @ [''bb.'']) ([], [], 0)
        = ([join '' '' (replicate n ''aa.'')], [''bb.''], 1)"
    by simp
  then show ?thesis
    unfolding chunk_text_def s by simp
qed


lemma tokenize_acc_chars:
  "t \<in> set (tokenize_acc cur s) \<Longrightarrow> set t \<subseteq> set cur \<union> set s"
proof (induction s arbitrary: cur)
  case Nil
  then show ?case by (auto split: if_splits)
next
  case (Cons c s)
  show ?case
  proof (cases "is_word_char c")
    case True
    with Cons.prems Cons.IH [of "cur @ [c]"] show ?thesis by auto
  next
    case False
    with Cons.prems Cons.IH [of "[]"] show ?thesis by (auto split: if_splits)
  qed
qed

lemma tokenize_chars: "t \<in> set (tokenize s) \<Longrightarrow> set t \<subseteq> lower_char ` set s"
  using tokenize_acc_chars [of t "[]" "map lower_char s"] by (simp add: tokenize_def)

lemma set_join: "set (join sep ws) \<subseteq> set sep \<union> \<Union> (set ` set ws)"
  by (induction sep ws rule: join.induct) auto

lemma set_join_aa:
  "set (join '' '' (replicate n ''aa.'')) \<subseteq> {CHR '' '', CHR ''a'', CHR ''.''}"
proof -
  have "\<Union> (set ` set (replicate n ''aa.'')) \<subseteq> {CHR ''a'', CHR ''.''}"
    by (cases n) auto
  then show ?thesis
    using set_join [of "'' ''" "replicate n ''aa.''"] by fastforce
qed

lemma zebra_not_in_aa: "''zebra'' \<notin> set (tokenize (join '' '' (replicate n ''aa.'')))"
proof
  assume "''zebra'' \<in> set (tokenize (join '' '' (replicate n ''aa.'')))"
  then have "set ''zebra'' \<subseteq> lower_char ` set (join '' '' (replicate n ''aa.''))"
    by (rule tokenize_chars)
  moreover note set_join_aa [of n]
  ultimately have "CHR ''z'' \<in> lower_char ` {CHR '' '', CHR ''a'', CHR ''.''}"
    by auto
  then show False by (simp add: lower_char_def)
qed

lemma tokenize_zebra: "tokenize ''zebra'' = [''zebra'']"
  by code_simp

lemma tokenize_bb: "tokenize ''bb.'' = [''bb'']"
  by code_simp

lemma top_indices_tie: "top_indices w2 [0, 0] = [1, 0]"
  by code_simp

lemma long_pdf_text:
  "extract_text_from_pdf_path w2 (path_join PDF_FOLDER ''long.pdf'')
   = concat (replicate 500 ''aa. '') @ [CHR 0x0A] @ ''bb.''"
  by (simp add: extract_text_from_pdf_path_def path_join_def PDF_FOLDER_def w2_def
      example_files_def)

lemma long_pdf_ranking:
  "pdf_chunks w2 ''long.pdf'' = [join '' '' (replicate 500 ''aa.''), ''bb.'']
   \<and> tfidf_sims w2 ''zebra'' (pdf_chunks w2 ''long.pdf'') = Inr [0, 0]
   \<and> tfidf_best_pdf_and_chunks w2 ''zebra'' [''long.pdf'']
       = Inr (''long.pdf'', [''bb.'', join '' '' (replicate 500 ''aa.'')], 0)"
proof -
  define c0 where "c0 = join '' '' (replicate 500 ''aa.'')"
  have "chunk_text (concat (replicate 500 ''aa. '') @ [CHR 0x0A] @ ''bb.'') (int 500) = [c0, ''bb.'']"
    unfolding c0_def by (rule chunk_text_aa_bb) simp
  then have chunks: "pdf_chunks w2 ''long.pdf'' = [c0, ''bb.'']"
    by (simp add: pdf_chunks_def long_pdf_text MAX_WORDS_PER_CHUNK_def)
  have z0: "''zebra'' \<notin> set (tokenize c0)"
    unfolding c0_def by (rule zebra_not_in_aa)
  have sims: "tfidf_sims w2 ''zebra'' [c0, ''bb.''] = Inr [0, 0]"
    using z0 by (simp add: tfidf_sims_def tokenize_zebra tokenize_bb w2_def overlap_cosine_def
        upt_rec [of 0] upt_rec [of 1] upt_rec [of "Suc 0"])
  have "pdf_result w2 ''zebra'' ''long.pdf'' = Inr (Some (0, [''bb.'', c0]))"
    by (simp add: pdf_result_def chunks sims top_indices_tie mean_or_zero_def)
  then have "tfidf_best_pdf_and_chunks w2 ''zebra'' [''long.pdf'']
       = Inr (''long.pdf'', [''bb.'', c0], 0)"
    by (simp add: tfidf_best_pdf_and_chunks_def rank_step_result)
  with chunks sims show ?thesis
    unfolding c0_def by simp
qed

lemma long_chunk_differs: "join '' '' (replicate 500 ''aa.'') \<noteq> ''bb.''"
proof
  assume "join '' '' (replicate 500 ''aa.'') = ''bb.''"
  with set_join_aa [of 500] show False by simp
qed

section \<open>Order of the top chunks\<close>

text \<open>
  Claim C1, as the code has it. When the ranking returns a document \<open>best\<close>, the returned
  chunks are the chunks of \<open>best\<close> at the indices \<open>top_indices w sims\<close>, where \<open>sims\<close> are the
  similarities of its chunks. These indices are distinct and in range, there are
  \<open>TOP_K_CHUNKS_FOR_QA\<close> of them (or as many as there are chunks), they are in descending
  order of score, and no chunk left out has a greater score than a chunk listed. Nothing
  is said of the order of chunks with equal scores: it is the order in which the sort of
  \<open>np.argsort\<close> leaves them, reversed.
\<close>

theorem top_chunks_order:
  assumes "tfidf_best_pdf_and_chunks w q pdfs = Inr (best, cs, score)" and "best \<noteq> []"
  shows "\<exists>sims. tfidf_sims w q (pdf_chunks w best) = Inr sims
           \<and> length sims = length (pdf_chunks w best)
           \<and> cs = map (\<lambda>i. pdf_chunks w best ! i) (top_indices w sims)
           \<and> length (top_indices w sims) = min TOP_K_CHUNKS_FOR_QA (length sims)
           \<and> set (top_indices w sims) \<subseteq> {..<length sims}
           \<and> distinct (top_indices w sims)
           \<and> sorted_wrt (\<lambda>i j. sims ! j \<le> sims ! i) (top_indices w sims)
           \<and> (\<forall>i\<in>set (top_indices w sims). \<forall>j<length sims.
                 j \<notin> set (top_indices w sims) \<longrightarrow> sims ! j \<le> sims ! i)"
proof -
  from assms(1) obtain bp bs where
    loop: "rank_loop w q pdfs (None, - 1, []) = Inr (bp, bs, cs)"
    and best: "best = (case bp of None \<Rightarrow> [] | Some p \<Rightarrow> p)"
    by (auto simp: tfidf_best_pdf_and_chunks_def split: sum.splits)
  from rank_loop_selects [OF loop] assms(2) best
  have "pdf_result w q best = Inr (Some (bs, cs))" by auto
  then obtain sims where s: "tfidf_sims w q (pdf_chunks w best) = Inr sims"
    and c: "cs = map (\<lambda>i. pdf_chunks w best ! i) (top_indices w sims)"
    by (auto simp: pdf_result_def Let_def split: if_splits sum.splits)
  from s have "length sims = length (pdf_chunks w best)"
    by (auto simp: tfidf_sims_def split: if_splits)
  with s c show ?thesis
    using top_indices_range [of w sims] top_indices_distinct [of w sims]
      top_indices_order [of sims w] top_indices_length [of w sims] top_indices_top [of _ w sims]
    by (intro exI [of _ sims]) simp
qed

theorem top_chunks_order_witness:
  "\<exists>sims. tfidf_sims w2 ''zebra'' (pdf_chunks w2 ''long.pdf'') = Inr sims
     \<and> length sims = length (pdf_chunks w2 ''long.pdf'')
     \<and> [''bb.'', join '' '' (replicate 500 ''aa.'')]
         = map (\<lambda>i. pdf_chunks w2 ''long.pdf'' ! i) (top_indices w2 sims)
     \<and> length (top_indices w2 sims) = min TOP_K_CHUNKS_FOR_QA (length sims)
     \<and> set (top_indices w2 sims) \<subseteq> {..<length sims}
     \<and> distinct (top_indices w2 sims)
     \<and> sorted_wrt (\<lambda>i j. sims ! j \<le> sims ! i) (top_indices w2 sims)
     \<and> (\<forall>i\<in>set (top_indices w2 sims). \<forall>j<length sims.
           j \<notin> set (top_indices w2 sims) \<longrightarrow> sims ! j \<le> sims ! i)"
proof -
  have e1: "tfidf_best_pdf_and_chunks w2 ''zebra'' [''long.pdf'']
            = Inr (''long.pdf'', [''bb.'', join '' '' (replicate 500 ''aa.'')], 0)"
    using long_pdf_ranking by (rule conjunct2 [THEN conjunct2])
  have e2: "''long.pdf'' \<noteq> []" by simp
  show ?thesis by (rule top_chunks_order [OF e1 e2])
qed

text \<open>
  The order of equal scores is the sort's: on 18 chunks of which nine have the highest
  score, the sort that leaves equal scores in index order lists the chunks 13, 12, 11,
  and the one of the world \<open>w5\<close> lists the chunks 6, 1, 2, where the first chunk of the
  document among the three is neither first nor last.
\<close>

lemma top_indices_depend_on_sort:
  "top_indices w2 [0, 1/2, 1/2, 1/2, 0, 1/2, 1/2, 0, 0, 0, 1/2, 1/2, 1/2, 1/2, 0, 0, 0, 0]
     = [13, 12, 11]
   \<and> top_indices w5 [0, 1/2, 1/2, 1/2, 0, 1/2, 1/2, 0, 0, 0, 1/2, 1/2, 1/2, 1/2, 0, 0, 0, 0]
     = [6, 1, 2]"
  by code_simp

text \<open>
  Claim C1, as the specification has it, fails. The document \<open>long.pdf\<close> has two chunks, in
  this order: 500 times \<open>aa.\<close>, then \<open>bb.\<close>. For the query \<open>zebra\<close> both have similarity 0.
  On two elements the sort of \<open>np.argsort\<close> is an insertion sort and leaves them in index
  order, which \<open>[::-1]\<close> reverses: the ranking returns \<open>bb.\<close> first, the reverse of the order
  in the document.
\<close>

theorem top_chunks_tie_counterexample:
  "pdf_chunks w2 ''long.pdf'' = [join '' '' (replicate 500 ''aa.''), ''bb.'']
   \<and> tfidf_sims w2 ''zebra'' (pdf_chunks w2 ''long.pdf'') = Inr [0, 0]
   \<and> tfidf_best_pdf_and_chunks w2 ''zebra'' [''long.pdf'']
       = Inr (''long.pdf'', [''bb.'', join '' '' (replicate 500 ''aa.'')], 0)
   \<and> join '' '' (replicate 500 ''aa.'') \<noteq> ''bb.''"
  using long_pdf_ranking long_chunk_differs by blast

section \<open>Adding a document to the corpus\<close>

lemma rank_loop_append:
  "rank_loop w q (xs @ ys) st =
     (case rank_loop w q xs st of Inl e \<Rightarrow> Inl e | Inr st' \<Rightarrow> rank_loop w q ys st')"
  by (induction xs arbitrary: st) (auto split: sum.splits)

lemma rank_loop_dominated:
  assumes "rank_loop w q ys (p1, s1, c1) = Inr (p, s, c)" "s1 \<le> s2" "s2 < s"
  shows "rank_loop w q ys (p2, s2, c2) = Inr (p, s, c)"
  using assms
proof (induction ys arbitrary: p1 s1 c1 p2 s2 c2)
  case Nil
  then show ?case by simp
next
  case (Cons y ys)
  show ?case
  proof (cases "pdf_result w q y")
    case (Inl e)
    with Cons.prems show ?thesis by (simp add: rank_step_result)
  next
    case (Inr r)
    show ?thesis
    proof (cases r)
      case None
      with Inr Cons.prems have "rank_loop w q ys (p1, s1, c1) = Inr (p, s, c)"
        by (simp add: rank_step_result)
      from Cons.IH [OF this Cons.prems(2,3)] Inr None show ?thesis
        by (simp add: rank_step_result)
    next
      case (Some ac)
      obtain a c' where ac: "ac = (a, c')" by (cases ac)
      have res: "pdf_result w q y = Inr (Some (a, c'))" using Inr Some ac by simp
      consider "s2 < a" | "a \<le> s1" | "s1 < a" "a \<le> s2" by linarith
      then show ?thesis
      proof cases
        case 1
        with Cons.prems res show ?thesis by (simp add: rank_step_result)
      next
        case 2
        with Cons.prems res have "rank_loop w q ys (p1, s1, c1) = Inr (p, s, c)"
          by (simp add: rank_step_result)
        from Cons.IH [OF this Cons.prems(2,3)] 2 Cons.prems(2) res show ?thesis
          by (simp add: rank_step_result)
      next
        case 3
        with Cons.prems res have "rank_loop w q ys (Some y, a, c') = Inr (p, s, c)"
          by (simp add: rank_step_result)
        from Cons.IH [OF this 3(2) Cons.prems(3)] 3 res show ?thesis
          by (simp add: rank_step_result)
      qed
    qed
  qed
qed

text \<open>
  Claim C9, as the code has it. Let the ranking of the documents \<open>xs @ ys\<close> return
  \<open>(best, cs, score)\<close>, and let \<open>d\<close> be a document with chunks whose own mean top-K score
  \<open>a\<close> is non-negative and strictly smaller than \<open>score\<close>. Then the ranking of the documents
  with \<open>d\<close> added at any place, \<open>xs @ d # ys\<close>, returns the same document, chunks and score.
\<close>

theorem lower_scored_document_keeps_selection:
  assumes "tfidf_best_pdf_and_chunks w q (xs @ ys) = Inr (best, cs, score)"
    and "pdf_result w q d = Inr (Some (a, c))"
    and "0 \<le> a" and "a < score"
  shows "tfidf_best_pdf_and_chunks w q (xs @ d # ys) = Inr (best, cs, score)"
proof -
  from assms(1) obtain bp bs where
    loop: "rank_loop w q (xs @ ys) (None, - 1, []) = Inr (bp, bs, cs)"
    and best: "best = (case bp of None \<Rightarrow> [] | Some p \<Rightarrow> p)" and score: "score = max bs 0"
    by (auto simp: tfidf_best_pdf_and_chunks_def split: sum.splits)
  from loop obtain p1 s1 c1 where
    pre: "rank_loop w q xs (None, - 1, []) = Inr (p1, s1, c1)"
    and post: "rank_loop w q ys (p1, s1, c1) = Inr (bp, bs, cs)"
    by (auto simp: rank_loop_append split: sum.splits)
  from assms(3,4) score have bs: "a < bs" by (auto simp: max_def split: if_splits)
  have "rank_loop w q (d # ys) (p1, s1, c1) = Inr (bp, bs, cs)"
  proof (cases "s1 < a")
    case True
    then have "s1 \<le> a" by simp
    from rank_loop_dominated [OF post this bs, of "Some d" c] True assms(2)
    show ?thesis by (simp add: rank_step_result)
  next
    case False
    with assms(2) post show ?thesis by (simp add: rank_step_result)
  qed
  then have "rank_loop w q (xs @ d # ys) (None, - 1, []) = Inr (bp, bs, cs)"
    using pre by (simp add: rank_loop_append)
  with best score show ?thesis
    by (simp add: tfidf_best_pdf_and_chunks_def)
qed

theorem lower_scored_document_keeps_selection_witness:
  "tfidf_best_pdf_and_chunks w2 ''cats'' ([] @ ''a.pdf'' # [''b.pdf''])
   = Inr (''b.pdf'', [''Cats purr. Cats sleep.''], 1 / 2)"
proof -
  have e1: "tfidf_best_pdf_and_chunks w2 ''cats'' ([] @ [''b.pdf''])
            = Inr (''b.pdf'', [''Cats purr. Cats sleep.''], 1 / 2)"
    by code_simp
  have e2: "pdf_result w2 ''cats'' ''a.pdf'' = Inr (Some (0, [''Dogs bark.'']))"
    by code_simp
  have e3: "(0::real) \<le> 0" by simp
  have e4: "(0::real) < 1 / 2" by simp
  show ?thesis by (rule lower_scored_document_keeps_selection [OF e1 e2 e3 e4])
qed

text \<open>
  Claim C9, as the specification has it, fails. For the query \<open>zebra\<close> the corpus of the one
  document \<open>b.pdf\<close> selects \<open>b.pdf\<close> with score 0. The document \<open>a.pdf\<close> has one chunk, of
  similarity 0 to the query; once it is in the corpus, where the sorted listing puts it
  first, the ranking selects \<open>a.pdf\<close>: a later document of equal score does not replace it.
\<close>

theorem unrelated_document_counterexample:
  "discover_pdfs (w2\<lparr>folder := Some [''b.pdf'']\<rparr>) = [''b.pdf'']
   \<and> discover_pdfs (w2\<lparr>folder := Some [''b.pdf'', ''a.pdf'']\<rparr>) = [''a.pdf'', ''b.pdf'']
   \<and> tfidf_best_pdf_and_chunks w2 ''zebra'' [''b.pdf'']
     = Inr (''b.pdf'', [''Cats purr. Cats sleep.''], 0)
   \<and> pdf_chunks w2 ''a.pdf'' = [''Dogs bark.'']
   \<and> tfidf_sims w2 ''zebra'' (pdf_chunks w2 ''a.pdf'') = Inr [0]
   \<and> tfidf_best_pdf_and_chunks w2 ''zebra'' [''a.pdf'', ''b.pdf'']
     = Inr (''a.pdf'', [''Dogs bark.''], 0)"
  by code_simp

section \<open>What the orchestrators return\<close>
















text \<open>
  Claim C2 fails on the code. The folder holds one PDF whose text is the page number \<open>7\<close>,
  and the question is \<open>?\<close>: neither has a token of two word characters, the vectoriser
  raises \<open>ValueError\<close>, and both \<open>answer_question_auto\<close> and \<open>summarize_on_prompt\<close> let the
  exception through instead of returning a triple.
\<close>

theorem empty_vocabulary_raises:
  "discover_pdfs w3 = [''n.pdf'']
   \<and> pdf_chunks w3 ''n.pdf'' = [''7'']
   \<and> answer_question_auto w3 ''?''
       = Inl (ValueError ''empty vocabulary; perhaps the documents only contain stop words'')
   \<and> summarize_on_prompt w3 ''?''
       = Inl (ValueError ''empty vocabulary; perhaps the documents only contain stop words'')"
  by code_simp

end
